theory Spec2Isabelle
  imports Main
begin

section \<open>Data model of server.py\<close>

text \<open>
  The server keeps one module-level dictionary, \<^verbatim>\<open>active_runs\<close> (line 15), from run
  identifiers to a dictionary with the keys \<^verbatim>\<open>thread_id\<close>, \<^verbatim>\<open>client\<close> and
  \<^verbatim>\<open>status\<close> (lines 72-76). The entry is a record; the OpenAI client object stored under
  \<^verbatim>\<open>client\<close> is represented by the API key it was built from (line 48).
\<close>

record run_info =
  info_thread_id :: string
  info_client :: string
  info_status :: string

text \<open>
  Exceptions. An instance of \<^verbatim>\<open>Exception\<close> raised inside the \<^verbatim>\<open>try\<close> of
  \<^verbatim>\<open>process_query\<close> is caught by \<^verbatim>\<open>except Exception as e\<close> (line 113) and surfaced as
  \<^verbatim>\<open>HTTPException(status_code=500, detail=str(e))\<close>. The text \<^verbatim>\<open>str(e)\<close> is computed by
  library code that is not part of the repository, so it is kept symbolic: \<open>StrOf e\<close>.
  \<open>APIError s\<close> stands for any exception raised by a call of the OpenAI client; \<open>s\<close>
  identifies it. \<open>KeyError\<close>, \<open>IndexError\<close> and \<open>AttributeError\<close> are the exceptions
  Python raises for a missing dictionary key, an empty list indexed at 0 and a missing
  attribute. \<open>CancelledError\<close> is \<^verbatim>\<open>asyncio.CancelledError\<close>: it derives from
  \<^verbatim>\<open>BaseException\<close> and not from \<^verbatim>\<open>Exception\<close>, so line 113 does not catch it.
\<close>

datatype py_exception =
    APIError string
  | KeyError string
  | IndexError
  | AttributeError
  | CancelledError
  | HTTPException nat detail
and detail =
    Text string
  | StrOf py_exception

text \<open>The JSON bodies the two endpoints return (lines 92, 107-111 and 124).\<close>

datatype response =
    Cancelled string
  | Answer string string string
  | Stopping

text \<open>\<^verbatim>\<open>class QueryRequest(BaseModel)\<close>, lines 37-40.\<close>

record QueryRequest =
  client_id :: string
  query :: string
  thread_id :: "string option"

text \<open>
  The remote assistant service. Within one uninterrupted stretch of \<^verbatim>\<open>process_query\<close>
  every client method is called at most once, so the service's behaviour during that
  stretch is one reply per method: \<open>Inl s\<close> when the call raises (exception \<open>APIError s\<close>),
  \<open>Inr v\<close> when it returns \<open>v\<close>. For \<^verbatim>\<open>runs.retrieve\<close> the value is the \<^verbatim>\<open>status\<close>
  attribute of the returned run, for \<^verbatim>\<open>threads.create\<close> and \<^verbatim>\<open>runs.create\<close> the \<^verbatim>\<open>id\<close>
  attribute. \<^verbatim>\<open>messages.list\<close> returns the messages, each given by its list of content
  blocks; a block either has a \<^verbatim>\<open>text.value\<close> or is of another kind.
\<close>

datatype content_block = TextBlock string | OtherBlock

record gateway =
  threads_create :: "string + string"
  messages_create :: "string + unit"
  runs_create :: "string + string"
  runs_retrieve :: "string + string"
  runs_cancel :: "string + unit"
  messages_list :: "string + content_block list list"

text \<open>
  The effects of \<^verbatim>\<open>process_query\<close> in program order: the calls of the client (with their
  arguments) and the writes to the key set of \<^verbatim>\<open>active_runs\<close>.
\<close>

datatype event =
    ThreadsCreate
  | MessagesCreate string string
  | RunsCreate string string
  | RunsRetrieve string string
  | RunsCancel string string
  | MessagesList string
  | Store string
  | Delete string

record world =
  active_runs :: "string \<rightharpoonup> run_info"
  calls :: "event list"

section \<open>The endpoints\<close>

definition emit :: "event \<Rightarrow> world \<Rightarrow> world" where
  "emit e w = w\<lparr>calls := calls w @ [e]\<rparr>"

text \<open>\<^verbatim>\<open>del active_runs[run.id]\<close>: raises \<^verbatim>\<open>KeyError\<close> when the key is missing.\<close>

definition del_run :: "string \<Rightarrow> world \<Rightarrow> py_exception + world" where
  "del_run run_id w =
     (if active_runs w run_id = None then Inl (KeyError run_id)
      else Inr (w\<lparr>active_runs := (active_runs w)(run_id := None),
                  calls := calls w @ [Delete run_id]\<rparr>))"

text \<open>
  Lines 52-56. \<^verbatim>\<open>not request.thread_id\<close> is true for \<^verbatim>\<open>None\<close> and for the empty string;
  \<open>new_thread\<close> is the branch of lines 53-54.
\<close>

definition new_thread :: "gateway \<Rightarrow> world \<Rightarrow> (py_exception + string) \<times> world" where
  "new_thread g w =
     (case threads_create g of
        Inl err \<Rightarrow> (Inl (APIError err), emit ThreadsCreate w)
      | Inr new_id \<Rightarrow> (Inr new_id, emit ThreadsCreate w))"

definition create_or_use_thread ::
  "QueryRequest \<Rightarrow> gateway \<Rightarrow> world \<Rightarrow> (py_exception + string) \<times> world" where
  "create_or_use_thread request g w =
     (case thread_id request of
        None \<Rightarrow> new_thread g w
      | Some given \<Rightarrow> if given = [] then new_thread g w else (Inr given, w))"

text \<open>
  Lines 51-76: the thread, the user message, the run, and the registration of the run.
  The result is the pair of locals \<^verbatim>\<open>(thread_id, run.id)\<close>; an exception raised here
  is raised before \<^verbatim>\<open>run\<close> is bound.
\<close>

definition start_run ::
  "QueryRequest \<Rightarrow> string \<Rightarrow> string \<Rightarrow> gateway \<Rightarrow> world
     \<Rightarrow> (py_exception + string \<times> string) \<times> world" where
  "start_run request assistant_id api_key g w =
     (case create_or_use_thread request g w of
        (Inl e, w1) \<Rightarrow> (Inl e, w1)
      | (Inr thread, w1) \<Rightarrow>
          (let w2 = emit (MessagesCreate thread (query request)) w1 in
           case messages_create g of
             Inl err \<Rightarrow> (Inl (APIError err), w2)
           | Inr _ \<Rightarrow>
               (let w3 = emit (RunsCreate thread assistant_id) w2 in
                case runs_create g of
                  Inl err \<Rightarrow> (Inl (APIError err), w3)
                | Inr run_id \<Rightarrow>
                    (Inr (thread, run_id),
                     w3\<lparr>active_runs := (active_runs w3)(run_id \<mapsto>
                           \<lparr>info_thread_id = thread, info_client = api_key,
                            info_status = ''running''\<rparr>),
                         calls := calls w3 @ [Store run_id]\<rparr>))))"

text \<open>
  One pass through the body of \<^verbatim>\<open>while True\<close>, lines 80-98. It ends in \<^verbatim>\<open>return\<close>
  (line 92), \<^verbatim>\<open>break\<close> (line 95), an exception, or \<^verbatim>\<open>await asyncio.sleep(0.5)\<close>
  (line 98).
\<close>

datatype control = Sleep | Break | Return response

definition poll_iteration ::
  "string \<Rightarrow> string \<Rightarrow> gateway \<Rightarrow> world \<Rightarrow> (py_exception + control) \<times> world" where
  "poll_iteration thread run_id g w =
     (let w1 = emit (RunsRetrieve thread run_id) w in
      case runs_retrieve g of
        Inl err \<Rightarrow> (Inl (APIError err), w1)
      | Inr run_status \<Rightarrow>
          (case active_runs w1 run_id of
             None \<Rightarrow> (Inl (KeyError run_id), w1)
           | Some info \<Rightarrow>
               if info_status info = ''cancelled'' then
                 (let w2 = emit (RunsCancel thread run_id) w1 in
                  case runs_cancel g of
                    Inl err \<Rightarrow> (Inl (APIError err), w2)
                  | Inr _ \<Rightarrow>
                      (case del_run run_id w2 of
                         Inl e \<Rightarrow> (Inl e, w2)
                       | Inr w3 \<Rightarrow> (Inr (Return (Cancelled thread)), w3)))
               else if run_status = ''completed'' then (Inr Break, w1)
               else if run_status = ''failed'' then
                 (Inl (HTTPException 500 (Text ''Assistant run failed'')), w1)
               else (Inr Sleep, w1)))"

text \<open>\<^verbatim>\<open>messages.data[0].content[0].text.value\<close>, line 102.\<close>

definition latest_message :: "content_block list list \<Rightarrow> py_exception + string" where
  "latest_message data =
     (case data of
        [] \<Rightarrow> Inl IndexError
      | content # _ \<Rightarrow>
          (case content of
             [] \<Rightarrow> Inl IndexError
           | TextBlock v # _ \<Rightarrow> Inr v
           | OtherBlock # _ \<Rightarrow> Inl AttributeError))"

text \<open>Lines 100-111, reached by \<^verbatim>\<open>break\<close>.\<close>

definition get_messages ::
  "string \<Rightarrow> string \<Rightarrow> gateway \<Rightarrow> world \<Rightarrow> (py_exception + response) \<times> world" where
  "get_messages thread run_id g w =
     (let w1 = emit (MessagesList thread) w in
      case messages_list g of
        Inl err \<Rightarrow> (Inl (APIError err), w1)
      | Inr data \<Rightarrow>
          (case latest_message data of
             Inl e \<Rightarrow> (Inl e, w1)
           | Inr text \<Rightarrow>
               (case del_run run_id w1 of
                  Inl e \<Rightarrow> (Inl e, w1)
                | Inr w2 \<Rightarrow> (Inr (Answer text thread run_id), w2))))"

text \<open>
  Lines 113-116. The second argument is \<^verbatim>\<open>run.id\<close> when \<^verbatim>\<open>'run' in locals()\<close> holds.
\<close>

definition except_handler ::
  "py_exception \<Rightarrow> string option \<Rightarrow> world \<Rightarrow> py_exception \<times> world" where
  "except_handler e run w =
     (case run of
        None \<Rightarrow> (HTTPException 500 (StrOf e), w)
      | Some run_id \<Rightarrow>
          if active_runs w run_id \<noteq> None then
            (HTTPException 500 (StrOf e),
             w\<lparr>active_runs := (active_runs w)(run_id := None),
               calls := calls w @ [Delete run_id]\<rparr>)
          else (HTTPException 500 (StrOf e), w))"

text \<open>
  \<^verbatim>\<open>process_query\<close> is a coroutine. The client it uses is the synchronous \<^verbatim>\<open>OpenAI\<close>
  client (lines 7 and 48), so the only point where it gives up control is
  \<^verbatim>\<open>await asyncio.sleep(0.5)\<close> at line 98: it runs from its start to that line, or to
  its end, without any other request handler running in between, and likewise from
  each wake-up to the next sleep. \<open>Suspended thread run_id\<close> is the coroutine asleep at
  line 98 with these locals; \<open>Finished r\<close> is the coroutine having returned or raised.

  \<open>resume\<close> is the stretch from the top of the loop body to the next sleep or to the end;
  \<open>process_query\<close> is the first stretch, from line 44.
\<close>

datatype progress = Suspended string string | Finished "py_exception + response"

definition resume :: "string \<Rightarrow> string \<Rightarrow> gateway \<Rightarrow> world \<Rightarrow> progress \<times> world" where
  "resume thread run_id g w =
     (case poll_iteration thread run_id g w of
        (Inl e, w1) \<Rightarrow>
          (case except_handler e (Some run_id) w1 of
             (err, w2) \<Rightarrow> (Finished (Inl err), w2))
      | (Inr Sleep, w1) \<Rightarrow> (Suspended thread run_id, w1)
      | (Inr (Return r), w1) \<Rightarrow> (Finished (Inr r), w1)
      | (Inr Break, w1) \<Rightarrow>
          (case get_messages thread run_id g w1 of
             (Inl e, w2) \<Rightarrow>
               (case except_handler e (Some run_id) w2 of
                  (err, w3) \<Rightarrow> (Finished (Inl err), w3))
           | (Inr r, w2) \<Rightarrow> (Finished (Inr r), w2)))"

definition process_query ::
  "(string \<rightharpoonup> string \<times> string) \<Rightarrow> QueryRequest \<Rightarrow> gateway \<Rightarrow> world
     \<Rightarrow> progress \<times> world" where
  "process_query assistants_map request g w =
     (case assistants_map (client_id request) of
        None \<Rightarrow> (Finished (Inl (HTTPException 404 (Text ''Client ID not found''))), w)
      | Some (assistant_id, api_key) \<Rightarrow>
          (case start_run request assistant_id api_key g w of
             (Inl e, w1) \<Rightarrow>
               (case except_handler e None w1 of
                  (err, w2) \<Rightarrow> (Finished (Inl err), w2))
           | (Inr (thread, run_id), w1) \<Rightarrow> resume thread run_id g w1))"

text \<open>
  The sleep of line 98 can also end by an exception: asyncio cancels a task by raising
  \<^verbatim>\<open>asyncio.CancelledError\<close> at the \<^verbatim>\<open>await\<close> the task is suspended in. The handler of
  line 113 does not catch it and the \<^verbatim>\<open>try\<close> has no \<^verbatim>\<open>finally\<close>: the coroutine ends
  with that exception, and \<^verbatim>\<open>active_runs\<close> is left as it is.
\<close>

definition sleep_cancelled :: "string \<Rightarrow> string \<Rightarrow> world \<Rightarrow> progress \<times> world" where
  "sleep_cancelled thread run_id w = (Finished (Inl CancelledError), w)"

text \<open>\<^verbatim>\<open>stop_generation\<close>, lines 118-124.\<close>

definition stop_generation :: "string \<Rightarrow> world \<Rightarrow> (py_exception + response) \<times> world" where
  "stop_generation run_id w =
     (case active_runs w run_id of
        None \<Rightarrow>
          (Inl (HTTPException 404 (Text ''Run not found or already completed'')), w)
      | Some info \<Rightarrow>
          (Inr Stopping,
           w\<lparr>active_runs := (active_runs w)(run_id \<mapsto> info\<lparr>info_status := ''cancelled''\<rparr>)\<rparr>))"

section \<open>The server as a transition system\<close>

text \<open>
  The state of the server between two stretches: the shared dictionary with the log of
  effects, and the coroutines asleep at line 98, each with its locals
  \<^verbatim>\<open>(thread_id, run.id)\<close>. A step is one uninterrupted stretch: a new query request
  (\<open>Query\<close>), the wake-up of the \<open>i\<close>-th sleeping coroutine (\<open>Wake\<close>), the cancellation
  of the task of the \<open>i\<close>-th sleeping coroutine (\<open>Cancel\<close>), or a stop request (\<open>Stop\<close>).
  A step yields the response, or the exception, of the request that ends in it, if one
  does.
\<close>

record server =
  shared :: world
  tasks :: "(string \<times> string) list"

datatype action = Query QueryRequest gateway | Wake nat gateway | Cancel nat | Stop string

fun step ::
  "(string \<rightharpoonup> string \<times> string) \<Rightarrow> action \<Rightarrow> server
     \<Rightarrow> (py_exception + response) option \<times> server" where
  "step assistants_map (Query request g) s =
     (case process_query assistants_map request g (shared s) of
        (Suspended thread run_id, w) \<Rightarrow>
          (None, \<lparr>shared = w, tasks = tasks s @ [(thread, run_id)]\<rparr>)
      | (Finished r, w) \<Rightarrow> (Some r, \<lparr>shared = w, tasks = tasks s\<rparr>))"
| "step assistants_map (Wake i g) s =
     (if i < length (tasks s) then
        (case tasks s ! i of
           (thread, run_id) \<Rightarrow>
             (case resume thread run_id g (shared s) of
                (Suspended thread' run_id', w) \<Rightarrow>
                  (None, \<lparr>shared = w, tasks = (tasks s)[i := (thread', run_id')]\<rparr>)
              | (Finished r, w) \<Rightarrow>
                  (Some r, \<lparr>shared = w, tasks = take i (tasks s) @ drop (Suc i) (tasks s)\<rparr>)))
      else (None, s))"
| "step assistants_map (Cancel i) s =
     (if i < length (tasks s) then
        (case tasks s ! i of
           (thread, run_id) \<Rightarrow>
             (case sleep_cancelled thread run_id (shared s) of
                (Suspended thread' run_id', w) \<Rightarrow>
                  (None, \<lparr>shared = w, tasks = (tasks s)[i := (thread', run_id')]\<rparr>)
              | (Finished r, w) \<Rightarrow>
                  (Some r, \<lparr>shared = w, tasks = take i (tasks s) @ drop (Suc i) (tasks s)\<rparr>)))
      else (None, s))"
| "step assistants_map (Stop run_id) s =
     (case stop_generation run_id (shared s) of
        (r, w) \<Rightarrow> (Some r, \<lparr>shared = w, tasks = tasks s\<rparr>))"

text \<open>
  The remote service issues fresh run identifiers: the identifier \<^verbatim>\<open>runs.create\<close>
  returns has not been registered before.
\<close>

fun admissible :: "action \<Rightarrow> server \<Rightarrow> bool" where
  "admissible (Query request g) s =
     (case runs_create g of
        Inl _ \<Rightarrow> True
      | Inr run_id \<Rightarrow> Store run_id \<notin> set (calls (shared s)))"
| "admissible (Wake i g) s = True"
| "admissible (Cancel i) s = True"
| "admissible (Stop run_id) s = True"

definition initial :: server where
  "initial = \<lparr>shared = \<lparr>active_runs = Map.empty, calls = []\<rparr>, tasks = []\<rparr>"

inductive reachable :: "(string \<rightharpoonup> string \<times> string) \<Rightarrow> server \<Rightarrow> bool"
  for assistants_map where
  reachable_initial: "reachable assistants_map initial"
| reachable_step:
    "reachable assistants_map s \<Longrightarrow> admissible a s
       \<Longrightarrow> reachable assistants_map (snd (step assistants_map a s))"

section \<open>Views of the state and invariants\<close>

text \<open>
  \<open>registered s r\<close>: \<^verbatim>\<open>r in active_runs\<close>. \<open>polling s r\<close>: a coroutine asleep in the
  poll loop has \<^verbatim>\<open>run.id == r\<close>. \<open>stores s r\<close> and \<open>deletes s r\<close> count how often line 72
  has stored, and lines 91, 105 or 115 have deleted, the entry of \<open>r\<close> so far.
\<close>

definition stores :: "server \<Rightarrow> string \<Rightarrow> nat" where
  "stores s run_id = count_list (calls (shared s)) (Store run_id)"

definition deletes :: "server \<Rightarrow> string \<Rightarrow> nat" where
  "deletes s run_id = count_list (calls (shared s)) (Delete run_id)"

definition registered :: "server \<Rightarrow> string \<Rightarrow> bool" where
  "registered s run_id = (active_runs (shared s) run_id \<noteq> None)"

definition polling :: "server \<Rightarrow> string \<Rightarrow> bool" where
  "polling s run_id = (run_id \<in> set (map snd (tasks s)))"

definition registry_invariant :: "server \<Rightarrow> bool" where
  "registry_invariant s =
     ((\<forall>run_id. polling s run_id \<longrightarrow> registered s run_id) \<and>
      distinct (map snd (tasks s)) \<and>
      (\<forall>run_id. registered s run_id \<longrightarrow> 0 < stores s run_id) \<and>
      (\<forall>run_id. stores s run_id \<le> 1) \<and>
      (\<forall>run_id. deletes s run_id =
         (if 0 < stores s run_id \<and> \<not> registered s run_id then 1 else 0)))"

definition thread_invariant :: "server \<Rightarrow> bool" where
  "thread_invariant s =
     (\<forall>(t, r) \<in> set (tasks s).
        \<exists>info. active_runs (shared s) r = Some info \<and> info_thread_id info = t)"

text \<open>
  \<open>wakes r a s\<close>: the step \<open>a\<close> ends the sleep of the coroutine that polls run \<open>r\<close>, by
  its wake-up or by the cancellation of its task.
  \<open>undisturbed r s s'\<close>: the server gets from \<open>s\<close> to \<open>s'\<close> by steps of any kind, with
  fresh run identifiers, none of which ends the sleep of that coroutine. \<open>cancel_pending s t r\<close>: a
  coroutine with locals \<open>(t, r)\<close> is asleep and the status of \<open>r\<close> is \<^verbatim>\<open>cancelled\<close>.
\<close>

fun wakes :: "string \<Rightarrow> action \<Rightarrow> server \<Rightarrow> bool" where
  "wakes run_id (Wake i g) s = (i < length (tasks s) \<and> snd (tasks s ! i) = run_id)"
| "wakes run_id (Cancel i) s = (i < length (tasks s) \<and> snd (tasks s ! i) = run_id)"
| "wakes run_id (Query request g) s = False"
| "wakes run_id (Stop r) s = False"

inductive undisturbed ::
  "(string \<rightharpoonup> string \<times> string) \<Rightarrow> string \<Rightarrow> server \<Rightarrow> server \<Rightarrow> bool"
  for assistants_map run_id s where
  undisturbed_refl: "undisturbed assistants_map run_id s s"
| undisturbed_step:
    "undisturbed assistants_map run_id s s' \<Longrightarrow> admissible a s' \<Longrightarrow> \<not> wakes run_id a s'
       \<Longrightarrow> undisturbed assistants_map run_id s (snd (step assistants_map a s'))"

definition cancel_pending :: "server \<Rightarrow> string \<Rightarrow> string \<Rightarrow> bool" where
  "cancel_pending s thread run_id =
     ((thread, run_id) \<in> set (tasks s) \<and>
      (\<exists>info. active_runs (shared s) run_id = Some info \<and> info_status info = ''cancelled''))"

text \<open>\<open>happens_before a b es\<close>: in the log \<open>es\<close>, some \<open>a\<close> is followed later by a \<open>b\<close>.\<close>

fun happens_before :: "event \<Rightarrow> event \<Rightarrow> event list \<Rightarrow> bool" where
  "happens_before a b [] = False"
| "happens_before a b (e # es) = ((e = a \<and> b \<in> set es) \<or> happens_before a b es)"

section \<open>A concrete run of the server\<close>

text \<open>
  One client, one query on the existing thread \<open>t1\<close>, and a remote service that answers
  every call, names the run \<open>r1\<close> and reports it as still in progress. After the first
  stretch the coroutine is asleep in the poll loop: state \<open>polling_r1\<close>. In
  \<open>completed_hello\<close> the service reports the run as completed, with the latest message
  \<open>hello\<close>; in \<open>failed_run\<close> it reports it as failed.
\<close>

definition example_map :: "string \<rightharpoonup> string \<times> string" where
  "example_map = [''c1'' \<mapsto> (''asst_1'', ''sk_1'')]"

definition example_request :: QueryRequest where
  "example_request = \<lparr>client_id = ''c1'', query = ''hi'', thread_id = Some ''t1''\<rparr>"

definition in_progress :: gateway where
  "in_progress =
     \<lparr>threads_create = Inr ''t0'', messages_create = Inr (), runs_create = Inr ''r1'',
      runs_retrieve = Inr ''in_progress'', runs_cancel = Inr (),
      messages_list = Inr [[TextBlock ''hello'']]\<rparr>"

definition completed_hello :: gateway where
  "completed_hello = in_progress\<lparr>runs_retrieve := Inr ''completed''\<rparr>"

definition failed_run :: gateway where
  "failed_run = in_progress\<lparr>runs_retrieve := Inr ''failed''\<rparr>"

definition polling_r1 :: server where
  "polling_r1 = snd (step example_map (Query example_request in_progress) initial)"

text \<open>
  \<open>cancelled_r1\<close>: in \<open>polling_r1\<close> the task of the sleeping coroutine has been cancelled.
\<close>

definition cancelled_r1 :: server where
  "cancelled_r1 = snd (step example_map (Cancel 0) polling_r1)"

text \<open>
  \<open>cancel_requested_r1\<close>: a stop request for \<open>r1\<close> has been served in \<open>polling_r1\<close>, and
  after it a second query, whose run the service names \<open>r2\<close>, has started polling.
\<close>

definition cancel_requested_r1 :: server where
  "cancel_requested_r1 =
     snd (step example_map (Query example_request (in_progress\<lparr>runs_create := Inr ''r2''\<rparr>))
       (snd (step example_map (Stop ''r1'') polling_r1)))"

section \<open>Effects of one stretch\<close>

lemmas resume_defs = resume_def poll_iteration_def get_messages_def except_handler_def del_run_def emit_def

lemma resume_cancelled:
  assumes "active_runs w run_id = Some info" "info_status info = ''cancelled''"
    and "runs_retrieve g = Inr st"
  shows "resume thread run_id g w =
     (case runs_cancel g of
        Inr u \<Rightarrow> (Finished (Inr (Cancelled thread)),
                  w\<lparr>active_runs := (active_runs w)(run_id := None),
                    calls := calls w @ [RunsRetrieve thread run_id, RunsCancel thread run_id, Delete run_id]\<rparr>)
      | Inl err \<Rightarrow> (Finished (Inl (HTTPException 500 (StrOf (APIError err)))),
                  w\<lparr>active_runs := (active_runs w)(run_id := None),
                    calls := calls w @ [RunsRetrieve thread run_id, RunsCancel thread run_id, Delete run_id]\<rparr>))"
  using assms by (simp add: resume_defs split: sum.split)

lemma resume_failed:
  assumes "active_runs w run_id = Some info" "info_status info \<noteq> ''cancelled''"
    and "runs_retrieve g = Inr ''failed''"
  shows "resume thread run_id g w =
     (Finished (Inl (HTTPException 500 (StrOf (HTTPException 500 (Text ''Assistant run failed''))))),
      w\<lparr>active_runs := (active_runs w)(run_id := None),
        calls := calls w @ [RunsRetrieve thread run_id, Delete run_id]\<rparr>)"
  using assms by (simp add: resume_defs)

lemma resume_completed:
  assumes "active_runs w run_id = Some info" "info_status info \<noteq> ''cancelled''"
    and "runs_retrieve g = Inr ''completed''" "messages_list g = Inr data" "latest_message data = Inr text"
  shows "resume thread run_id g w =
     (Finished (Inr (Answer text thread run_id)),
      w\<lparr>active_runs := (active_runs w)(run_id := None),
        calls := calls w @ [RunsRetrieve thread run_id, MessagesList thread, Delete run_id]\<rparr>)"
  using assms by (simp add: resume_defs)

lemma resume_finished_absent:
  "resume thread run_id g w = (Finished r, w') \<Longrightarrow> active_runs w' run_id = None"
  by (auto simp: resume_defs Let_def split: sum.splits option.splits if_splits control.splits prod.splits)

lemmas resume_splits = sum.splits option.splits if_splits control.splits prod.splits list.splits content_block.splits

lemma resume_registry:
  assumes "active_runs w run_id \<noteq> None"
  shows "active_runs (snd (resume thread run_id g w)) =
           (case fst (resume thread run_id g w) of
              Suspended t r \<Rightarrow> active_runs w
            | Finished out \<Rightarrow> (active_runs w)(run_id := None))"
  using assms
  by (auto simp: resume_defs Let_def latest_message_def split: resume_splits)

lemma resume_locals:
  "fst (resume thread run_id g w) = Suspended t r \<Longrightarrow> t = thread \<and> r = run_id"
  by (auto simp: resume_defs Let_def latest_message_def split: resume_splits)

lemma resume_stores:
  "count_list (calls (snd (resume thread run_id g w))) (Store x) = count_list (calls w) (Store x)"
  by (auto simp: resume_defs Let_def latest_message_def split: resume_splits)

lemma resume_deletes:
  assumes "active_runs w run_id \<noteq> None"
  shows "count_list (calls (snd (resume thread run_id g w))) (Delete x) =
         count_list (calls w) (Delete x) +
           (case fst (resume thread run_id g w) of
              Suspended t r \<Rightarrow> 0
            | Finished out \<Rightarrow> if x = run_id then 1 else 0)"
  using assms
  by (auto simp: resume_defs Let_def latest_message_def split: resume_splits)

lemma start_run_err:
  assumes "start_run request a k g w = (Inl e, w1)"
  shows "active_runs w1 = active_runs w \<and>
         count_list (calls w1) (Store x) = count_list (calls w) (Store x) \<and>
         count_list (calls w1) (Delete x) = count_list (calls w) (Delete x)"
  using assms
  by (auto simp: start_run_def create_or_use_thread_def new_thread_def emit_def Let_def
      split: resume_splits)

lemma start_run_ok:
  assumes "start_run request a k g w = (Inr (t, r), w1)"
  shows "runs_create g = Inr r \<and>
         active_runs w1 = (active_runs w)(r \<mapsto>
           \<lparr>info_thread_id = t, info_client = k, info_status = ''running''\<rparr>) \<and>
         count_list (calls w1) (Store x) = count_list (calls w) (Store x) + (if x = r then 1 else 0) \<and>
         count_list (calls w1) (Delete x) = count_list (calls w) (Delete x)"
  using assms
  by (auto simp: start_run_def create_or_use_thread_def new_thread_def emit_def Let_def
      split: resume_splits)

lemma except_handler_None:
  "except_handler e None w = (HTTPException 500 (StrOf e), w)"
  by (simp add: except_handler_def)

lemma process_query_suspended:
  assumes "process_query am request g w = (Suspended t r, w')"
  shows "runs_create g = Inr r \<and>
         (\<exists>k. active_runs w' = (active_runs w)(r \<mapsto>
            \<lparr>info_thread_id = t, info_client = k, info_status = ''running''\<rparr>)) \<and>
         (\<forall>x. count_list (calls w') (Store x) = count_list (calls w) (Store x) + (if x = r then 1 else 0)) \<and>
         (\<forall>x. count_list (calls w') (Delete x) = count_list (calls w) (Delete x))"
proof -
  from assms obtain a k where am: "am (client_id request) = Some (a, k)"
    by (auto simp: process_query_def split: option.splits)
  from assms am obtain t0 r0 w1 where
    sr: "start_run request a k g w = (Inr (t0, r0), w1)" and rs: "resume t0 r0 g w1 = (Suspended t r, w')"
    by (auto simp: process_query_def except_handler_None split: sum.splits prod.splits)
  note ok = start_run_ok [OF sr]
  have present: "active_runs w1 r0 \<noteq> None" using ok by simp
  from resume_locals [of t0 r0 g w1 t r] rs have eq: "t = t0" "r = r0" by simp_all
  have reg: "active_runs w' = active_runs w1"
    using resume_registry [OF present, of t0 g] rs by simp
  have st: "count_list (calls w') (Store x) = count_list (calls w1) (Store x)" for x
    using resume_stores [of t0 r0 g w1 x] rs by simp
  have de: "count_list (calls w') (Delete x) = count_list (calls w1) (Delete x)" for x
    using resume_deletes [OF present, of t0 g x] rs by simp
  show ?thesis
    using ok eq reg st de by auto
qed

lemma process_query_finished:
  assumes "process_query am request g w = (Finished out, w')"
  shows "(\<forall>x. count_list (calls w') (Store x) \<le>
              count_list (calls w) (Store x) + (if runs_create g = Inr x then 1 else 0)) \<and>
         (\<forall>x. count_list (calls w) (Store x) \<le> count_list (calls w') (Store x)) \<and>
         (\<forall>x. count_list (calls w') (Delete x) + count_list (calls w) (Store x) =
              count_list (calls w) (Delete x) + count_list (calls w') (Store x)) \<and>
         ((\<forall>x. runs_create g = Inr x \<longrightarrow> active_runs w x = None) \<longrightarrow>
            active_runs w' = active_runs w)"
proof (cases "am (client_id request)")
  case None
  then show ?thesis using assms by (auto simp: process_query_def)
next
  case (Some p)
  obtain a k where p: "p = (a, k)" by (cases p)
  show ?thesis
  proof (cases "start_run request a k g w")
    case (Pair res w1)
    show ?thesis
    proof (cases res)
      case (Inl e)
      then show ?thesis
        using assms Some p Pair start_run_err [of request a k g w e w1]
        by (auto simp: process_query_def except_handler_None)
    next
      case (Inr tr)
      obtain t0 r0 where tr: "tr = (t0, r0)" by (cases tr)
      have sr: "start_run request a k g w = (Inr (t0, r0), w1)" using Pair Inr tr by simp
      have rs: "resume t0 r0 g w1 = (Finished out, w')"
        using assms Some p sr by (simp add: process_query_def)
      note ok = start_run_ok [OF sr]
      have present: "active_runs w1 r0 \<noteq> None" using ok by simp
      have reg: "active_runs w' = (active_runs w1)(r0 := None)"
        using resume_registry [OF present, of t0 g] rs by simp
      have st: "count_list (calls w') (Store x) = count_list (calls w1) (Store x)" for x
        using resume_stores [of t0 r0 g w1 x] rs by simp
      have de: "count_list (calls w') (Delete x) = count_list (calls w1) (Delete x) + (if x = r0 then 1 else 0)" for x
        using resume_deletes [OF present, of t0 g x] rs by simp
      show ?thesis
        using ok reg st de by (auto simp: fun_upd_idem)
    qed
  qed
qed

section \<open>The registry invariant\<close>

lemma remove_nth_distinct:
  assumes "distinct xs" "i < length xs"
  shows "distinct (take i xs @ drop (Suc i) xs) \<and>
         set (take i xs @ drop (Suc i) xs) = set xs - {xs ! i}"
proof -
  have xs: "xs = take i xs @ xs ! i # drop (Suc i) xs"
    using assms(2) by (rule id_take_nth_drop)
  have "distinct (take i xs @ xs ! i # drop (Suc i) xs)"
    using assms(1) xs by simp
  moreover have "set xs = set (take i xs @ xs ! i # drop (Suc i) xs)"
    using xs by simp
  ultimately show ?thesis by auto
qed

lemma invariant_same:
  assumes "registry_invariant s"
    and "\<And>x. registered s' x = registered s x" "\<And>x. polling s' x = polling s x"
    and "map snd (tasks s') = map snd (tasks s)"
    and "\<And>x. stores s' x = stores s x" "\<And>x. deletes s' x = deletes s x"
  shows "registry_invariant s'"
  using assms unfolding registry_invariant_def by simp

lemma invariant_remove:
  assumes "registry_invariant s" and "polling s r"
    and "\<And>x. registered s' x = (registered s x \<and> x \<noteq> r)"
    and "\<And>x. polling s' x = (polling s x \<and> x \<noteq> r)"
    and "distinct (map snd (tasks s'))"
    and "\<And>x. stores s' x = stores s x"
    and "\<And>x. deletes s' x = deletes s x + (if x = r then 1 else 0)"
  shows "registry_invariant s'"
  using assms unfolding registry_invariant_def by auto

lemma invariant_cancel:
  assumes "registry_invariant s"
    and "\<And>x. registered s' x = registered s x"
    and "\<And>x. polling s' x \<Longrightarrow> polling s x"
    and "distinct (map snd (tasks s'))"
    and "\<And>x. stores s' x = stores s x" "\<And>x. deletes s' x = deletes s x"
  shows "registry_invariant s'"
  using assms unfolding registry_invariant_def by auto

lemma invariant_add:
  assumes "registry_invariant s" and "stores s r = 0"
    and "\<And>x. registered s' x = (registered s x \<or> x = r)"
    and "map snd (tasks s') = map snd (tasks s) @ [r]"
    and "\<And>x. stores s' x = stores s x + (if x = r then 1 else 0)"
    and "\<And>x. deletes s' x = deletes s x"
  shows "registry_invariant s'"
proof -
  have p: "polling s' x = (polling s x \<or> x = r)" for x
    using assms(4) by (auto simp: polling_def)
  have nr: "\<not> registered s r"
    using assms(1,2) unfolding registry_invariant_def by (metis less_numeral_extra(3))
  then have np: "\<not> polling s r"
    using assms(1) unfolding registry_invariant_def by blast
  then have "distinct (map snd (tasks s'))"
    using assms(1,4) by (simp add: registry_invariant_def polling_def)
  then show ?thesis
    using assms(1,2,3,5,6) p nr np unfolding registry_invariant_def by auto
qed

lemma invariant_transient:
  assumes "registry_invariant s"
    and "\<And>x. registered s' x = registered s x"
    and "map snd (tasks s') = map snd (tasks s)"
    and "\<And>x. stores s x \<le> stores s' x"
    and "\<And>x. stores s' x \<le> stores s x + (if fresh x then 1 else 0)"
    and "\<And>x. fresh x \<Longrightarrow> stores s x = 0"
    and "\<And>x. deletes s' x + stores s x = deletes s x + stores s' x"
  shows "registry_invariant s'"
proof -
  have p: "polling s' x = polling s x" for x
    using assms(3) by (simp add: polling_def)
  have pr: "polling s' x \<Longrightarrow> registered s' x" for x
    using assms(1) assms(2) [of x] p [of x] unfolding registry_invariant_def by blast
  have d: "distinct (map snd (tasks s'))"
    using assms(1,3) by (simp add: registry_invariant_def)
  have old: "stores s x \<le> 1" for x
    using assms(1) unfolding registry_invariant_def by blast
  have le1: "stores s' x \<le> 1" for x
    using old [of x] assms(5) [of x] assms(6) [of x] by (cases "fresh x") simp_all
  have pos: "registered s' x \<Longrightarrow> 0 < stores s' x" for x
    using assms(1) assms(4) [of x] assms(2) [of x] unfolding registry_invariant_def
    by (metis less_le_trans)
  have del: "deletes s' x = (if 0 < stores s' x \<and> \<not> registered s' x then 1 else 0)" for x
  proof (cases "stores s' x = stores s x")
    case True
    then show ?thesis
      using assms(1) assms(7) [of x] assms(2) [of x] unfolding registry_invariant_def by auto
  next
    case False
    then have f: "fresh x" "stores s' x = stores s x + 1"
      using assms(4) [of x] assms(5) [of x] by (auto split: if_splits)
    then have z: "stores s x = 0" using assms(6) by simp
    then have "\<not> registered s x" "deletes s x = 0"
      using assms(1) unfolding registry_invariant_def by (metis less_numeral_extra(3))+
    then show ?thesis
      using assms(7) [of x] f z assms(2) [of x] by simp
  qed
  show ?thesis
    unfolding registry_invariant_def
    using pr d le1 pos del by simp
qed

lemmas view_defs = registered_def polling_def stores_def deletes_def

lemma stop_generation_world:
  "calls (snd (stop_generation run_id w)) = calls w \<and>
   (\<forall>x. (active_runs (snd (stop_generation run_id w)) x \<noteq> None) = (active_runs w x \<noteq> None))"
  by (auto simp: stop_generation_def split: option.splits)

lemma invariant_stop:
  assumes "registry_invariant s"
  shows "registry_invariant (snd (step am (Stop run_id) s))"
proof -
  have s': "snd (step am (Stop run_id) s) =
      \<lparr>shared = snd (stop_generation run_id (shared s)), tasks = tasks s\<rparr>"
    by (simp split: prod.splits)
  show ?thesis
    unfolding s'
    by (rule invariant_same [OF assms])
       (use stop_generation_world [of run_id "shared s"] in \<open>auto simp: view_defs\<close>)
qed

lemma invariant_wake:
  assumes inv: "registry_invariant s"
  shows "registry_invariant (snd (step am (Wake i g) s))"
proof (cases "i < length (tasks s)")
  case False
  then show ?thesis using inv by simp
next
  case True
  obtain t r where tr: "tasks s ! i = (t, r)" by (cases "tasks s ! i")
  have r_eq: "r = map snd (tasks s) ! i" using True tr by simp
  have r_in: "polling s r"
    unfolding polling_def using True r_eq by (metis length_map nth_mem)
  have present: "active_runs (shared s) r \<noteq> None"
    using inv r_in by (simp add: registry_invariant_def registered_def)
  obtain p w' where res: "resume t r g (shared s) = (p, w')" by (cases "resume t r g (shared s)")
  have st: "count_list (calls w') (Store x) = count_list (calls (shared s)) (Store x)" for x
    using resume_stores [of t r g "shared s" x] res by simp
  show ?thesis
  proof (cases p)
    case (Suspended t' r')
    then have eq: "t' = t" "r' = r"
      using resume_locals [of t r g "shared s" t' r'] res by simp_all
    have "(tasks s)[i := (t, r)] = tasks s"
      using tr by (metis list_update_id)
    then have s': "snd (step am (Wake i g) s) = \<lparr>shared = w', tasks = tasks s\<rparr>"
      using True tr res Suspended eq by simp
    have reg: "active_runs w' = active_runs (shared s)"
      using resume_registry [OF present, of t g] res Suspended by simp
    have de: "count_list (calls w') (Delete x) = count_list (calls (shared s)) (Delete x)" for x
      using resume_deletes [OF present, of t g x] res Suspended by simp
    show ?thesis
      unfolding s'
      by (rule invariant_same [OF inv]) (simp_all add: view_defs reg st de)
  next
    case (Finished out)
    then have s': "snd (step am (Wake i g) s) =
        \<lparr>shared = w', tasks = take i (tasks s) @ drop (Suc i) (tasks s)\<rparr>"
      using True tr res by simp
    have ids: "map snd (take i (tasks s) @ drop (Suc i) (tasks s)) =
        take i (map snd (tasks s)) @ drop (Suc i) (map snd (tasks s))"
      by (simp add: take_map drop_map)
    have dist: "distinct (map snd (tasks s))"
      using inv by (simp add: registry_invariant_def)
    have rem: "distinct (take i (map snd (tasks s)) @ drop (Suc i) (map snd (tasks s)))"
       "set (take i (map snd (tasks s)) @ drop (Suc i) (map snd (tasks s))) = set (map snd (tasks s)) - {r}"
      using remove_nth_distinct [OF dist, of i] True r_eq by simp_all
    have reg: "active_runs w' = (active_runs (shared s))(r := None)"
      using resume_registry [OF present, of t g] res Finished by simp
    have de: "count_list (calls w') (Delete x) =
        count_list (calls (shared s)) (Delete x) + (if x = r then 1 else 0)" for x
      using resume_deletes [OF present, of t g x] res Finished by simp
    show ?thesis
      unfolding s'
    proof (rule invariant_remove [OF inv r_in])
      show "registered \<lparr>shared = w', tasks = take i (tasks s) @ drop (Suc i) (tasks s)\<rparr> x =
          (registered s x \<and> x \<noteq> r)" for x
        by (auto simp: registered_def reg)
      show "polling \<lparr>shared = w', tasks = take i (tasks s) @ drop (Suc i) (tasks s)\<rparr> x =
          (polling s x \<and> x \<noteq> r)" for x
        unfolding polling_def server.simps ids rem by auto
      show "distinct (map snd (tasks \<lparr>shared = w', tasks = take i (tasks s) @ drop (Suc i) (tasks s)\<rparr>))"
        unfolding server.simps ids by (rule rem)
    qed (simp_all add: view_defs st de)
  qed
qed

lemma invariant_query:
  assumes inv: "registry_invariant s" and adm: "admissible (Query request g) s"
  shows "registry_invariant (snd (step am (Query request g) s))"
proof -
  obtain p w' where res: "process_query am request g (shared s) = (p, w')"
    by (cases "process_query am request g (shared s)")
  have fresh: "runs_create g = Inr x \<Longrightarrow> stores s x = 0" for x
    using adm by (simp add: stores_def)
  show ?thesis
  proof (cases p)
    case (Suspended t r)
    then have s': "snd (step am (Query request g) s) =
        \<lparr>shared = w', tasks = tasks s @ [(t, r)]\<rparr>"
      using res by simp
    note eff = process_query_suspended [OF res [unfolded Suspended]]
    show ?thesis
      unfolding s'
      by (rule invariant_add [OF inv, of r]) (use eff fresh in \<open>auto simp: view_defs\<close>)
  next
    case (Finished out)
    then have s': "snd (step am (Query request g) s) = \<lparr>shared = w', tasks = tasks s\<rparr>"
      using res by simp
    note eff = process_query_finished [OF res [unfolded Finished]]
    have absent: "runs_create g = Inr x \<Longrightarrow> active_runs (shared s) x = None" for x
      using fresh [of x] inv unfolding registry_invariant_def registered_def
      by (metis less_numeral_extra(3))
    show ?thesis
      unfolding s'
      by (rule invariant_transient [OF inv, where fresh = "\<lambda>x. runs_create g = Inr x"])
         (use eff fresh absent in \<open>auto simp: view_defs\<close>)
  qed
qed

lemma invariant_initial: "registry_invariant initial"
  by (simp add: registry_invariant_def initial_def view_defs)

lemma stop_generation_entry:
  "active_runs w r = Some info \<Longrightarrow>
   \<exists>info'. active_runs (snd (stop_generation run_id w)) r = Some info' \<and>
     info_thread_id info' = info_thread_id info"
  by (auto simp: stop_generation_def split: option.splits)

lemma threads_stop:
  assumes "thread_invariant s"
  shows "thread_invariant (snd (step am (Stop run_id) s))"
proof -
  have s': "snd (step am (Stop run_id) s) =
      \<lparr>shared = snd (stop_generation run_id (shared s)), tasks = tasks s\<rparr>"
    by (simp split: prod.splits)
  show ?thesis
    unfolding s' thread_invariant_def
    using assms stop_generation_entry [of "shared s" _ _ run_id]
    by (fastforce simp: thread_invariant_def)
qed

lemma threads_wake:
  assumes inv: "registry_invariant s" and thr: "thread_invariant s"
  shows "thread_invariant (snd (step am (Wake i g) s))"
proof (cases "i < length (tasks s)")
  case False
  then show ?thesis using thr by simp
next
  case True
  obtain t r where tr: "tasks s ! i = (t, r)" by (cases "tasks s ! i")
  have r_eq: "r = map snd (tasks s) ! i" using True tr by simp
  have "(t, r) \<in> set (tasks s)" using True tr by (metis nth_mem)
  then have present: "active_runs (shared s) r \<noteq> None"
    using thr by (auto simp: thread_invariant_def)
  obtain p w' where res: "resume t r g (shared s) = (p, w')" by (cases "resume t r g (shared s)")
  show ?thesis
  proof (cases p)
    case (Suspended t' r')
    then have eq: "t' = t" "r' = r"
      using resume_locals [of t r g "shared s" t' r'] res by simp_all
    have "(tasks s)[i := (t, r)] = tasks s"
      using tr by (metis list_update_id)
    then have s': "snd (step am (Wake i g) s) = \<lparr>shared = w', tasks = tasks s\<rparr>"
      using True tr res Suspended eq by simp
    have reg: "active_runs w' = active_runs (shared s)"
      using resume_registry [OF present, of t g] res Suspended by simp
    show ?thesis
      unfolding s' using thr by (simp add: thread_invariant_def reg)
  next
    case (Finished out)
    then have s': "snd (step am (Wake i g) s) =
        \<lparr>shared = w', tasks = take i (tasks s) @ drop (Suc i) (tasks s)\<rparr>"
      using True tr res by simp
    have ids: "map snd (take i (tasks s) @ drop (Suc i) (tasks s)) =
        take i (map snd (tasks s)) @ drop (Suc i) (map snd (tasks s))"
      by (simp add: take_map drop_map)
    have dist: "distinct (map snd (tasks s))"
      using inv by (simp add: registry_invariant_def)
    have rem: "set (map snd (take i (tasks s) @ drop (Suc i) (tasks s))) = set (map snd (tasks s)) - {r}"
      unfolding ids using remove_nth_distinct [OF dist, of i] True r_eq by simp
    have reg: "active_runs w' = (active_runs (shared s))(r := None)"
      using resume_registry [OF present, of t g] res Finished by simp
    have sub: "set (take i (tasks s) @ drop (Suc i) (tasks s)) \<subseteq> set (tasks s)"
      by (auto dest: in_set_takeD in_set_dropD)
    have "\<exists>info. active_runs w' r' = Some info \<and> info_thread_id info = t'"
      if "(t', r') \<in> set (take i (tasks s) @ drop (Suc i) (tasks s))" for t' r'
    proof -
      have "r' \<in> set (map snd (take i (tasks s) @ drop (Suc i) (tasks s)))"
        using that by (metis image_eqI set_map snd_conv)
      then have "r' \<noteq> r" unfolding rem by simp
      moreover have "(t', r') \<in> set (tasks s)" using that sub by blast
      ultimately show ?thesis
        using thr by (auto simp: thread_invariant_def reg)
    qed
    then show ?thesis
      unfolding s' thread_invariant_def by auto
  qed
qed

lemma threads_query:
  assumes inv: "registry_invariant s" and thr: "thread_invariant s"
    and adm: "admissible (Query request g) s"
  shows "thread_invariant (snd (step am (Query request g) s))"
proof -
  obtain p w' where res: "process_query am request g (shared s) = (p, w')"
    by (cases "process_query am request g (shared s)")
  have fresh: "runs_create g = Inr x \<Longrightarrow> stores s x = 0" for x
    using adm by (simp add: stores_def)
  have absent: "runs_create g = Inr x \<Longrightarrow> active_runs (shared s) x = None" for x
    using fresh [of x] inv unfolding registry_invariant_def registered_def
    by (metis less_numeral_extra(3))
  show ?thesis
  proof (cases p)
    case (Suspended t r)
    then have s': "snd (step am (Query request g) s) =
        \<lparr>shared = w', tasks = tasks s @ [(t, r)]\<rparr>"
      using res by simp
    note eff = process_query_suspended [OF res [unfolded Suspended]]
    then obtain k where reg: "active_runs w' = (active_runs (shared s))(r \<mapsto>
            \<lparr>info_thread_id = t, info_client = k, info_status = ''running''\<rparr>)"
      by blast
    have r_absent: "active_runs (shared s) r = None" using eff absent by blast
    show ?thesis
      unfolding s' thread_invariant_def
      using thr r_absent by (auto simp: thread_invariant_def reg)
  next
    case (Finished out)
    then have s': "snd (step am (Query request g) s) = \<lparr>shared = w', tasks = tasks s\<rparr>"
      using res by simp
    note eff = process_query_finished [OF res [unfolded Finished]]
    have reg: "active_runs w' = active_runs (shared s)"
      using eff absent by blast
    show ?thesis
      unfolding s' using thr by (simp add: thread_invariant_def reg)
  qed
qed

lemma step_cancel:
  assumes "i < length (tasks s)"
  shows "step am (Cancel i) s =
     (Some (Inl CancelledError),
      \<lparr>shared = shared s, tasks = take i (tasks s) @ drop (Suc i) (tasks s)\<rparr>)"
  using assms by (simp add: sleep_cancelled_def split: prod.splits)

lemma invariant_cancel_step:
  assumes inv: "registry_invariant s"
  shows "registry_invariant (snd (step am (Cancel i) s))"
proof (cases "i < length (tasks s)")
  case False
  then show ?thesis using inv by simp
next
  case True
  have ids: "map snd (take i (tasks s) @ drop (Suc i) (tasks s)) =
      take i (map snd (tasks s)) @ drop (Suc i) (map snd (tasks s))"
    by (simp add: take_map drop_map)
  have dist: "distinct (map snd (tasks s))"
    using inv by (simp add: registry_invariant_def)
  have rem: "distinct (take i (map snd (tasks s)) @ drop (Suc i) (map snd (tasks s)))"
     "set (take i (map snd (tasks s)) @ drop (Suc i) (map snd (tasks s))) =
        set (map snd (tasks s)) - {map snd (tasks s) ! i}"
    using remove_nth_distinct [OF dist, of i] True by simp_all
  show ?thesis
    unfolding step_cancel [OF True] snd_conv
  proof (rule invariant_cancel [OF inv])
    show "polling \<lparr>shared = shared s, tasks = take i (tasks s) @ drop (Suc i) (tasks s)\<rparr> x
        \<Longrightarrow> polling s x" for x
      unfolding polling_def server.simps ids rem by simp
    show "distinct (map snd
        (tasks \<lparr>shared = shared s, tasks = take i (tasks s) @ drop (Suc i) (tasks s)\<rparr>))"
      unfolding server.simps ids by (rule rem)
  qed (simp_all add: view_defs)
qed

lemma threads_cancel:
  assumes thr: "thread_invariant s"
  shows "thread_invariant (snd (step am (Cancel i) s))"
proof (cases "i < length (tasks s)")
  case False
  then show ?thesis using thr by simp
next
  case True
  have sub: "set (take i (tasks s) @ drop (Suc i) (tasks s)) \<subseteq> set (tasks s)"
    by (auto dest: in_set_takeD in_set_dropD)
  show ?thesis
    unfolding step_cancel [OF True] snd_conv
    using thr sub by (auto simp: thread_invariant_def)
qed

lemma reachable_invariants: "reachable am s \<Longrightarrow> registry_invariant s \<and> thread_invariant s"
proof (induction rule: reachable.induct)
  case reachable_initial
  show ?case by (simp add: invariant_initial) (simp add: thread_invariant_def initial_def)
next
  case (reachable_step s a)
  then show ?case
    by (cases a)
       (simp_all only: invariant_query invariant_wake invariant_stop invariant_cancel_step
          threads_query threads_wake threads_stop threads_cancel simp_thms)
qed

lemma resume_no_key_error:
  assumes "active_runs w run_id \<noteq> None"
  shows "fst (resume thread run_id g w) \<noteq> Finished (Inl (HTTPException 500 (StrOf (KeyError k))))"
  using assms
  by (auto simp: resume_defs Let_def latest_message_def split: resume_splits)

lemma process_query_no_key_error:
  "fst (process_query am request g w) \<noteq> Finished (Inl (HTTPException 500 (StrOf (KeyError k))))"
proof (cases "am (client_id request)")
  case None
  then show ?thesis by (simp add: process_query_def)
next
  case (Some p)
  obtain a k' where p: "p = (a, k')" by (cases p)
  obtain res w1 where sr: "start_run request a k' g w = (res, w1)"
    by (cases "start_run request a k' g w")
  show ?thesis
  proof (cases res)
    case (Inl e)
    have "e \<noteq> KeyError k"
      using sr Inl
      by (auto simp: start_run_def create_or_use_thread_def new_thread_def Let_def
          split: resume_splits)
    then show ?thesis
      using Some p sr Inl by (simp add: process_query_def except_handler_None)
  next
    case (Inr tr)
    obtain t0 r0 where tr: "tr = (t0, r0)" by (cases tr)
    have ok: "start_run request a k' g w = (Inr (t0, r0), w1)" using sr Inr tr by simp
    have present: "active_runs w1 r0 \<noteq> None" using start_run_ok [OF ok] by simp
    show ?thesis
      using Some p ok resume_no_key_error [OF present, of t0 g k]
      by (simp add: process_query_def)
  qed
qed


section \<open>The concrete run\<close>

lemma polling_r1_eq:
  "polling_r1 =
     \<lparr>shared = \<lparr>active_runs = [''r1'' \<mapsto> \<lparr>info_thread_id = ''t1'', info_client = ''sk_1'',
                    info_status = ''running''\<rparr>],
                 calls = [MessagesCreate ''t1'' ''hi'', RunsCreate ''t1'' ''asst_1'', Store ''r1'',
                    RunsRetrieve ''t1'' ''r1'']\<rparr>,
      tasks = [(''t1'', ''r1'')]\<rparr>"
  by (simp add: polling_r1_def example_map_def example_request_def in_progress_def initial_def
      process_query_def start_run_def create_or_use_thread_def resume_defs)

lemma reachable_polling_r1: "reachable example_map polling_r1"
  unfolding polling_r1_def
  by (rule reachable_step [OF reachable_initial]) (simp add: in_progress_def initial_def)

lemma cancelled_r1_eq:
  "cancelled_r1 =
     \<lparr>shared = \<lparr>active_runs = [''r1'' \<mapsto> \<lparr>info_thread_id = ''t1'', info_client = ''sk_1'',
                    info_status = ''running''\<rparr>],
                 calls = [MessagesCreate ''t1'' ''hi'', RunsCreate ''t1'' ''asst_1'', Store ''r1'',
                    RunsRetrieve ''t1'' ''r1'']\<rparr>,
      tasks = []\<rparr>"
  by (simp add: cancelled_r1_def polling_r1_eq sleep_cancelled_def)

lemma reachable_cancelled_r1: "reachable example_map cancelled_r1"
  unfolding cancelled_r1_def
  by (rule reachable_step [OF reachable_polling_r1]) simp

section \<open>Further facts about one stretch\<close>

lemma task_entry:
  assumes "reachable am s" and "i < length (tasks s)" and "tasks s ! i = (thread, run_id)"
  shows "\<exists>info. active_runs (shared s) run_id = Some info \<and> info_thread_id info = thread"
proof -
  have "thread_invariant s" using assms(1) reachable_invariants by blast
  moreover have "(thread, run_id) \<in> set (tasks s)" using assms(2,3) by (metis nth_mem)
  ultimately show ?thesis by (auto simp: thread_invariant_def)
qed

lemma poll_iteration_no_key_error:
  assumes "active_runs w run_id \<noteq> None"
  shows "fst (poll_iteration thread run_id g w) \<noteq> Inl (KeyError k)"
  using assms
  by (auto simp: poll_iteration_def del_run_def emit_def Let_def split: resume_splits)

lemma step_no_key_error:
  assumes "reachable am s"
  shows "fst (step am a s) \<noteq> Some (Inl (HTTPException 500 (StrOf (KeyError k))))"
proof (cases a)
  case (Query request g)
  then show ?thesis
    using process_query_no_key_error [of am request g "shared s" k]
    by (auto split: prod.splits progress.splits)
next
  case (Wake i g)
  show ?thesis
  proof (cases "i < length (tasks s)")
    case False
    then show ?thesis using Wake by simp
  next
    case True
    obtain t r where tr: "tasks s ! i = (t, r)" by (cases "tasks s ! i")
    have "active_runs (shared s) r \<noteq> None"
      using task_entry [OF assms True tr] by auto
    then show ?thesis
      using Wake True tr resume_no_key_error [of "shared s" r t g k]
      by (auto split: prod.splits progress.splits)
  qed
next
  case (Cancel i)
  then show ?thesis
    by (cases "i < length (tasks s)") (simp_all add: sleep_cancelled_def split: prod.splits)
next
  case (Stop r)
  then show ?thesis
    by (auto simp: stop_generation_def split: option.splits)
qed


section \<open>A pending cancellation\<close>

lemma cancel_pending_step:
  assumes reach: "reachable am s" and pend: "cancel_pending s thread run_id"
    and adm: "admissible a s" and nw: "\<not> wakes run_id a s"
  shows "cancel_pending (snd (step am a s)) thread run_id"
proof -
  have inv: "registry_invariant s" using reach reachable_invariants by blast
  obtain info where info: "active_runs (shared s) run_id = Some info"
    "info_status info = ''cancelled''" and mem: "(thread, run_id) \<in> set (tasks s)"
    using pend by (auto simp: cancel_pending_def)
  have pol: "polling s run_id"
    using mem unfolding polling_def by (metis image_eqI set_map snd_conv)
  show ?thesis
  proof (cases a)
    case (Stop r)
    then show ?thesis
      using info mem by (auto simp: cancel_pending_def stop_generation_def split: option.splits)
  next
    case (Query request g)
    obtain p w' where res: "process_query am request g (shared s) = (p, w')"
      by (cases "process_query am request g (shared s)")
    have fresh: "runs_create g = Inr x \<Longrightarrow> stores s x = 0" for x
      using adm Query by (simp add: stores_def)
    have absent: "runs_create g = Inr x \<Longrightarrow> active_runs (shared s) x = None" for x
      using fresh [of x] inv unfolding registry_invariant_def registered_def
      by (metis less_numeral_extra(3))
    show ?thesis
    proof (cases p)
      case (Suspended t r)
      note eff = process_query_suspended [OF res [unfolded Suspended]]
      then obtain k where reg: "active_runs w' = (active_runs (shared s))(r \<mapsto>
            \<lparr>info_thread_id = t, info_client = k, info_status = ''running''\<rparr>)"
        by blast
      have "r \<noteq> run_id" using eff absent info by force
      then show ?thesis
        using Query res Suspended info mem by (simp add: cancel_pending_def reg)
    next
      case (Finished out)
      note eff = process_query_finished [OF res [unfolded Finished]]
      have reg: "active_runs w' = active_runs (shared s)"
        using eff absent by blast
      show ?thesis
        using Query res Finished info mem by (simp add: cancel_pending_def reg)
    qed
  next
    case (Cancel i)
    show ?thesis
    proof (cases "i < length (tasks s)")
      case False
      then show ?thesis using Cancel pend by simp
    next
      case True
      obtain t r where tr: "tasks s ! i = (t, r)" by (cases "tasks s ! i")
      have ne: "r \<noteq> run_id" using nw Cancel True tr by simp
      have "tasks s = take i (tasks s) @ (t, r) # drop (Suc i) (tasks s)"
        using id_take_nth_drop [OF True] tr by simp
      then have "(thread, run_id) \<in> set (take i (tasks s) @ (t, r) # drop (Suc i) (tasks s))"
        using mem by simp
      then have "(thread, run_id) \<in> set (take i (tasks s) @ drop (Suc i) (tasks s))"
        using ne by auto
      then show ?thesis
        using info unfolding Cancel step_cancel [OF True] by (simp add: cancel_pending_def)
    qed
  next
    case (Wake i g)
    show ?thesis
    proof (cases "i < length (tasks s)")
      case False
      then show ?thesis using Wake pend by simp
    next
      case True
      obtain t r where tr: "tasks s ! i = (t, r)" by (cases "tasks s ! i")
      have ne: "r \<noteq> run_id" using nw Wake True tr by simp
      have "(t, r) \<in> set (tasks s)" using True tr by (metis nth_mem)
      then have "polling s r"
        unfolding polling_def by (metis image_eqI set_map snd_conv)
      then have present: "active_runs (shared s) r \<noteq> None"
        using inv by (simp add: registry_invariant_def registered_def)
      obtain p w' where res: "resume t r g (shared s) = (p, w')"
        by (cases "resume t r g (shared s)")
      show ?thesis
      proof (cases p)
        case (Suspended t' r')
        then have eq: "t' = t" "r' = r"
          using resume_locals [of t r g "shared s" t' r'] res by simp_all
        have upd: "(tasks s)[i := (t, r)] = tasks s"
          using tr by (metis list_update_id)
        have reg: "active_runs w' = active_runs (shared s)"
          using resume_registry [OF present, of t g] res Suspended by simp
        show ?thesis
          using Wake True tr res Suspended eq upd info mem by (simp add: cancel_pending_def reg)
      next
        case (Finished out)
        have reg: "active_runs w' = (active_runs (shared s))(r := None)"
          using resume_registry [OF present, of t g] res Finished by simp
        have "tasks s = take i (tasks s) @ (t, r) # drop (Suc i) (tasks s)"
          using id_take_nth_drop [OF True] tr by simp
        then have "(thread, run_id) \<in> set (take i (tasks s) @ (t, r) # drop (Suc i) (tasks s))"
          using mem by simp
        then have "(thread, run_id) \<in> set (take i (tasks s) @ drop (Suc i) (tasks s))"
          using ne by auto
        then show ?thesis
          using Wake True tr res Finished info ne by (simp add: cancel_pending_def reg)
      qed
    qed
  qed
qed

lemma undisturbed_pending:
  assumes "undisturbed am run_id s s'" and "reachable am s" and "cancel_pending s thread run_id"
  shows "reachable am s' \<and> cancel_pending s' thread run_id"
  using assms
proof (induction rule: undisturbed.induct)
  case undisturbed_refl
  then show ?case by simp
next
  case (undisturbed_step s' a)
  then show ?case
    using cancel_pending_step reachable_step by blast
qed

lemma distinct_snd_unique:
  "distinct (map snd xs) \<Longrightarrow> (a, k) \<in> set xs \<Longrightarrow> (b, k) \<in> set xs \<Longrightarrow> a = b"
  by (induction xs) force+

lemma wake_cancelled:
  assumes "i < length (tasks s)" and "tasks s ! i = (thread, run_id)"
    and "active_runs (shared s) run_id = Some info" and "info_status info = ''cancelled''"
    and "runs_retrieve g = Inr st"
  shows "calls (shared (snd (step am (Wake i g) s))) =
           calls (shared s) @
             [RunsRetrieve thread run_id, RunsCancel thread run_id, Delete run_id] \<and>
         active_runs (shared (snd (step am (Wake i g) s))) run_id = None \<and>
         (runs_cancel g = Inr () \<longrightarrow>
            fst (step am (Wake i g) s) = Some (Inr (Cancelled thread))) \<and>
         fst (step am (Stop run_id) (snd (step am (Wake i g) s))) =
           Some (Inl (HTTPException 404 (Text ''Run not found or already completed'')))"
proof -
  note r = resume_cancelled [OF assms(3-5), of thread]
  obtain p w' where res: "resume thread run_id g (shared s) = (p, w')"
    by (cases "resume thread run_id g (shared s)")
  have w': "w' = (shared s)\<lparr>active_runs := (active_runs (shared s))(run_id := None),
      calls := calls (shared s) @
        [RunsRetrieve thread run_id, RunsCancel thread run_id, Delete run_id]\<rparr>"
    and fin: "\<exists>out. p = Finished out"
    and ok: "runs_cancel g = Inr () \<Longrightarrow> p = Finished (Inr (Cancelled thread))"
    using r res by (auto split: sum.splits)
  obtain out where p: "p = Finished out" using fin by blast
  have wake: "step am (Wake i g) s =
      (Some out, \<lparr>shared = w', tasks = take i (tasks s) @ drop (Suc i) (tasks s)\<rparr>)"
    using assms(1,2) res p by simp
  show ?thesis
    using wake ok p by (simp add: stop_generation_def w')
qed

lemma cancel_requested_r1_eq:
  "cancel_requested_r1 =
     \<lparr>shared = \<lparr>active_runs =
                  [''r1'' \<mapsto> \<lparr>info_thread_id = ''t1'', info_client = ''sk_1'',
                     info_status = ''cancelled''\<rparr>,
                   ''r2'' \<mapsto> \<lparr>info_thread_id = ''t1'', info_client = ''sk_1'',
                     info_status = ''running''\<rparr>],
                 calls = [MessagesCreate ''t1'' ''hi'', RunsCreate ''t1'' ''asst_1'', Store ''r1'',
                    RunsRetrieve ''t1'' ''r1'', MessagesCreate ''t1'' ''hi'',
                    RunsCreate ''t1'' ''asst_1'', Store ''r2'', RunsRetrieve ''t1'' ''r2'']\<rparr>,
      tasks = [(''t1'', ''r1''), (''t1'', ''r2'')]\<rparr>"
  by (simp add: cancel_requested_r1_def polling_r1_eq stop_generation_def example_map_def
      example_request_def in_progress_def process_query_def start_run_def
      create_or_use_thread_def resume_defs)

lemma undisturbed_cancel_requested_r1:
  "undisturbed example_map ''r1'' (snd (step example_map (Stop ''r1'') polling_r1))
     cancel_requested_r1"
  unfolding cancel_requested_r1_def
  by (rule undisturbed_step [OF undisturbed_refl])
     (simp_all add: polling_r1_eq stop_generation_def)

section \<open>The claims\<close>

text \<open>
  C1. Take any reachable state of the server and any coroutine asleep in its poll loop,
  with locals \<open>thread\<close> and \<open>run_id\<close>: the run is registered, with that thread. A stop
  request for the run is answered with \<^verbatim>\<open>{"status": "stopping"}\<close>. Whatever the server
  does after it before that coroutine wakes up (queries, stop requests, wake-ups and
  cancellations of other coroutines): when the coroutine wakes up and \<^verbatim>\<open>runs.retrieve\<close> returns, with any
  status, it calls \<^verbatim>\<open>runs.cancel\<close> next, deletes the entry of the run and, the call of
  \<^verbatim>\<open>runs.cancel\<close> having returned, returns
  \<^verbatim>\<open>{"status": "cancelled", "thread_id": thread}\<close>. A stop request for the run after that
  is answered with HTTP 404: the run is not found.
\<close>

theorem cancel_then_next_check:
  assumes "reachable am s" and "(thread, run_id) \<in> set (tasks s)"
    and "undisturbed am run_id (snd (step am (Stop run_id) s)) s'"
    and "i < length (tasks s')" and "tasks s' ! i = (thread', run_id)"
    and "runs_retrieve g = Inr st"
  shows "(\<exists>info. active_runs (shared s) run_id = Some info \<and> info_thread_id info = thread) \<and>
         fst (step am (Stop run_id) s) = Some (Inr Stopping) \<and>
         thread' = thread \<and>
         calls (shared (snd (step am (Wake i g) s'))) =
           calls (shared s') @
             [RunsRetrieve thread run_id, RunsCancel thread run_id, Delete run_id] \<and>
         active_runs (shared (snd (step am (Wake i g) s'))) run_id = None \<and>
         (runs_cancel g = Inr () \<longrightarrow>
            fst (step am (Wake i g) s') = Some (Inr (Cancelled thread))) \<and>
         fst (step am (Stop run_id) (snd (step am (Wake i g) s'))) =
           Some (Inl (HTTPException 404 (Text ''Run not found or already completed'')))"
proof -
  have thr: "thread_invariant s" using assms(1) reachable_invariants by blast
  then obtain info where info: "active_runs (shared s) run_id = Some info"
      "info_thread_id info = thread"
    using assms(2) by (auto simp: thread_invariant_def)
  have stop: "step am (Stop run_id) s =
      (Some (Inr Stopping),
       \<lparr>shared = (shared s)\<lparr>active_runs := (active_runs (shared s))(run_id \<mapsto>
          info\<lparr>info_status := ''cancelled''\<rparr>)\<rparr>, tasks = tasks s\<rparr>)"
    using info by (simp add: stop_generation_def)
  have reach1: "reachable am (snd (step am (Stop run_id) s))"
    using assms(1) by (rule reachable_step) simp
  have pend1: "cancel_pending (snd (step am (Stop run_id) s)) thread run_id"
    using assms(2) unfolding stop by (simp add: cancel_pending_def)
  have reach': "reachable am s'" and pend': "cancel_pending s' thread run_id"
    using undisturbed_pending [OF assms(3) reach1 pend1] by simp_all
  obtain info' where info': "active_runs (shared s') run_id = Some info'"
      "info_status info' = ''cancelled''"
    using pend' by (auto simp: cancel_pending_def)
  have inv': "registry_invariant s'" using reach' reachable_invariants by blast
  have dist: "distinct (map snd (tasks s'))"
    using inv' by (simp add: registry_invariant_def)
  have "(thread', run_id) \<in> set (tasks s')" using assms(4,5) by (metis nth_mem)
  moreover have "(thread, run_id) \<in> set (tasks s')"
    using pend' by (simp add: cancel_pending_def)
  ultimately have same: "thread' = thread"
    using dist by (rule distinct_snd_unique [rotated])
  show ?thesis
    using info stop same wake_cancelled [OF assms(4) _ info' assms(6), of thread am] assms(5)
    by simp
qed

theorem cancel_then_next_check_witness:
  "fst (step example_map (Stop ''r1'') polling_r1) = Some (Inr Stopping) \<and>
   fst (step example_map (Wake 0 in_progress) cancel_requested_r1) =
     Some (Inr (Cancelled ''t1'')) \<and>
   calls (shared (snd (step example_map (Wake 0 in_progress) cancel_requested_r1))) =
     calls (shared cancel_requested_r1) @
       [RunsRetrieve ''t1'' ''r1'', RunsCancel ''t1'' ''r1'', Delete ''r1''] \<and>
   active_runs (shared (snd (step example_map (Wake 0 in_progress) cancel_requested_r1))) ''r1'' =
     None \<and>
   fst (step example_map (Stop ''r1'')
         (snd (step example_map (Wake 0 in_progress) cancel_requested_r1))) =
     Some (Inl (HTTPException 404 (Text ''Run not found or already completed'')))"
proof -
  have m: "(''t1'', ''r1'') \<in> set (tasks polling_r1)"
    by (simp add: polling_r1_eq)
  have i: "0 < length (tasks cancel_requested_r1)"
    "tasks cancel_requested_r1 ! 0 = (''t1'', ''r1'')"
    by (simp_all add: cancel_requested_r1_eq)
  have g: "runs_retrieve in_progress = Inr ''in_progress''" "runs_cancel in_progress = Inr ()"
    by (simp_all add: in_progress_def)
  show ?thesis
    using cancel_then_next_check
      [OF reachable_polling_r1 m undisturbed_cancel_requested_r1 i g(1)] g(2)
    by blast
qed

text \<open>
  C2. The claim: in every reachable state a run identifier is a key of \<^verbatim>\<open>active_runs\<close> iff
  the poll loop that registered it is still executing, and every registered entry is
  removed exactly once. The code breaks it where the task of a sleeping coroutine is
  cancelled: in the reachable state \<open>cancelled_r1\<close> no coroutine is left, the entry of
  \<open>r1\<close> is still in \<^verbatim>\<open>active_runs\<close> and has never been deleted, and since no coroutine
  is left to delete it, it stays: a stop request for \<open>r1\<close> is answered with
  \<^verbatim>\<open>{"status": "stopping"}\<close> and changes neither the key set nor the log.
\<close>

theorem entry_orphaned_by_cancellation:
  "reachable example_map cancelled_r1 \<and>
   tasks cancelled_r1 = [] \<and>
   active_runs (shared cancelled_r1) ''r1'' =
     Some \<lparr>info_thread_id = ''t1'', info_client = ''sk_1'', info_status = ''running''\<rparr> \<and>
   count_list (calls (shared cancelled_r1)) (Store ''r1'') = 1 \<and>
   count_list (calls (shared cancelled_r1)) (Delete ''r1'') = 0 \<and>
   step example_map (Stop ''r1'') cancelled_r1 =
     (Some (Inr Stopping),
      \<lparr>shared = \<lparr>active_runs = [''r1'' \<mapsto> \<lparr>info_thread_id = ''t1'', info_client = ''sk_1'',
                     info_status = ''cancelled''\<rparr>],
                  calls = calls (shared cancelled_r1)\<rparr>,
       tasks = []\<rparr>)"
  using reachable_cancelled_r1 by (simp add: cancelled_r1_eq stop_generation_def)

text \<open>
  What holds in every reachable state, the cancellation of tasks included: a sleeping
  poll loop has its entry (with its thread); no two sleeping poll loops have the same
  run identifier; an entry is stored at most once per run identifier; and an entry has
  been deleted exactly once if it was stored and is no longer there, and never
  otherwise. A stop request deletes nothing and ends no coroutine.
\<close>

lemma registry_facts_reachable:
  assumes "reachable am s"
  shows "(\<forall>run_id. run_id \<in> set (map snd (tasks s)) \<longrightarrow> active_runs (shared s) run_id \<noteq> None) \<and>
         (\<forall>(thread, run_id) \<in> set (tasks s).
            \<exists>info. active_runs (shared s) run_id = Some info \<and> info_thread_id info = thread) \<and>
         distinct (map snd (tasks s)) \<and>
         (\<forall>run_id. count_list (calls (shared s)) (Store run_id) \<le> 1) \<and>
         (\<forall>run_id. count_list (calls (shared s)) (Delete run_id) =
            (if Store run_id \<in> set (calls (shared s)) \<and> active_runs (shared s) run_id = None
             then 1 else 0)) \<and>
         (\<forall>run_id. calls (shared (snd (step am (Stop run_id) s))) = calls (shared s) \<and>
            tasks (snd (step am (Stop run_id) s)) = tasks s)"
proof -
  have inv: "registry_invariant s" and thr: "thread_invariant s"
    using assms reachable_invariants by blast+
  have mem: "(Store r \<in> set (calls (shared s))) = (0 < stores s r)" for r
    using count_list_0_iff [of "calls (shared s)" "Store r"] by (auto simp: stores_def)
  have stop: "calls (shared (snd (step am (Stop r) s))) = calls (shared s) \<and>
      tasks (snd (step am (Stop r) s)) = tasks s" for r
    using stop_generation_world [of r "shared s"] by (auto split: prod.splits)
  have main: "(\<forall>run_id. run_id \<in> set (map snd (tasks s)) \<longrightarrow> active_runs (shared s) run_id \<noteq> None) \<and>
         distinct (map snd (tasks s)) \<and>
         (\<forall>run_id. count_list (calls (shared s)) (Store run_id) \<le> 1) \<and>
         (\<forall>run_id. count_list (calls (shared s)) (Delete run_id) =
            (if Store run_id \<in> set (calls (shared s)) \<and> active_runs (shared s) run_id = None
             then 1 else 0))"
    using inv unfolding mem by (simp add: registry_invariant_def view_defs)
  show ?thesis
    using main stop thr unfolding thread_invariant_def by blast
qed

text \<open>
  C3, as stated: of two stop requests in succession for a registered run, with no
  wake-up of the poll loop in between, the second is answered with not-found. It is
  not: in the concrete run the second request is not answered with HTTP 404.
\<close>

theorem stop_twice_counterexample:
  "fst (step example_map (Stop ''r1'') (snd (step example_map (Stop ''r1'') polling_r1))) \<noteq>
     Some (Inl (HTTPException 404 (Text ''Run not found or already completed'')))"
  by (simp add: polling_r1_eq stop_generation_def)

text \<open>
  C3, amended: for a registered run, two stop requests in succession are both answered
  with \<^verbatim>\<open>{"status": "stopping"}\<close>; a stop request never removes the entry, it sets its
  status to \<^verbatim>\<open>cancelled\<close>, and the second request leaves the state exactly as the first
  left it.
\<close>

theorem stop_twice:
  assumes "active_runs w run_id = Some info"
  shows "fst (stop_generation run_id w) = Inr Stopping \<and>
         stop_generation run_id (snd (stop_generation run_id w)) =
           (Inr Stopping, snd (stop_generation run_id w)) \<and>
         active_runs (snd (stop_generation run_id w)) run_id =
           Some (info\<lparr>info_status := ''cancelled''\<rparr>)"
  using assms by (simp add: stop_generation_def)

theorem stop_twice_witness:
  "fst (stop_generation ''r1'' (shared polling_r1)) = Inr Stopping \<and>
   fst (stop_generation ''r1'' (snd (stop_generation ''r1'' (shared polling_r1)))) = Inr Stopping \<and>
   active_runs (snd (stop_generation ''r1'' (snd (stop_generation ''r1'' (shared polling_r1))))) ''r1'' =
     Some \<lparr>info_thread_id = ''t1'', info_client = ''sk_1'', info_status = ''cancelled''\<rparr>"
proof -
  have h: "active_runs (shared polling_r1) ''r1'' =
      Some \<lparr>info_thread_id = ''t1'', info_client = ''sk_1'', info_status = ''running''\<rparr>"
    by (simp add: polling_r1_eq)
  show ?thesis using stop_twice [OF h] by simp
qed

text \<open>
  C4, as stated: when the poll reports \<^verbatim>\<open>completed\<close>, the entry is removed first and
  \<^verbatim>\<open>messages.list\<close> is called afterwards. It is not: in the concrete run the answer
  \<open>hello\<close> is returned, the loop is left by \<^verbatim>\<open>break\<close> with the entry of \<open>r1\<close> still in
  \<^verbatim>\<open>active_runs\<close>, and in the log no deletion of \<open>r1\<close> precedes the call of
  \<^verbatim>\<open>messages.list\<close>.
\<close>

theorem entry_present_at_list_messages:
  "fst (step example_map (Wake 0 completed_hello) polling_r1) =
     Some (Inr (Answer ''hello'' ''t1'' ''r1'')) \<and>
   fst (poll_iteration ''t1'' ''r1'' completed_hello (shared polling_r1)) = Inr Break \<and>
   active_runs (snd (poll_iteration ''t1'' ''r1'' completed_hello (shared polling_r1))) ''r1'' \<noteq> None \<and>
   \<not> happens_before (Delete ''r1'') (MessagesList ''t1'')
       (calls (shared (snd (step example_map (Wake 0 completed_hello) polling_r1))))"
  by (simp add: polling_r1_eq completed_hello_def in_progress_def resume_defs latest_message_def)

text \<open>
  C4, amended: when \<^verbatim>\<open>runs.retrieve\<close> reports \<^verbatim>\<open>completed\<close> for a registered run whose
  status is not \<^verbatim>\<open>cancelled\<close>, and \<^verbatim>\<open>messages.list\<close> returns messages whose first content
  block is a text, the coroutine calls \<^verbatim>\<open>messages.list\<close> first, with the entry still
  present, deletes the entry afterwards, and returns the text with the thread and run
  identifiers.
\<close>

theorem completed_run_fetch_then_remove:
  assumes "active_runs w run_id = Some info" and "info_status info \<noteq> ''cancelled''"
    and "runs_retrieve g = Inr ''completed''"
    and "messages_list g = Inr data" and "latest_message data = Inr text"
  shows "resume thread run_id g w =
           (Finished (Inr (Answer text thread run_id)),
            w\<lparr>active_runs := (active_runs w)(run_id := None),
              calls := calls w @ [RunsRetrieve thread run_id, MessagesList thread,
                                  Delete run_id]\<rparr>) \<and>
         fst (poll_iteration thread run_id g w) = Inr Break \<and>
         get_messages thread run_id g (snd (poll_iteration thread run_id g w)) =
           (Inr (Answer text thread run_id), snd (resume thread run_id g w)) \<and>
         active_runs (snd (poll_iteration thread run_id g w)) run_id = Some info \<and>
         happens_before (MessagesList thread) (Delete run_id)
           (drop (length (calls w)) (calls (snd (resume thread run_id g w)))) \<and>
         \<not> happens_before (Delete run_id) (MessagesList thread)
           (drop (length (calls w)) (calls (snd (resume thread run_id g w))))"
  using assms resume_completed [OF assms, of thread]
  by (simp add: poll_iteration_def get_messages_def del_run_def emit_def)

theorem completed_run_fetch_then_remove_witness:
  "step example_map (Wake 0 completed_hello) polling_r1 =
     (Some (Inr (Answer ''hello'' ''t1'' ''r1'')),
      \<lparr>shared = \<lparr>active_runs = Map.empty,
                  calls = [MessagesCreate ''t1'' ''hi'', RunsCreate ''t1'' ''asst_1'', Store ''r1'',
                    RunsRetrieve ''t1'' ''r1'', RunsRetrieve ''t1'' ''r1'',
                    MessagesList ''t1'', Delete ''r1'']\<rparr>,
       tasks = []\<rparr>)"
proof -
  have h: "active_runs (shared polling_r1) ''r1'' =
      Some \<lparr>info_thread_id = ''t1'', info_client = ''sk_1'', info_status = ''running''\<rparr>"
    by (simp add: polling_r1_eq)
  have c: "runs_retrieve completed_hello = Inr ''completed''"
    "messages_list completed_hello = Inr [[TextBlock ''hello'']]"
    by (simp_all add: completed_hello_def in_progress_def)
  have m: "latest_message [[TextBlock ''hello'']] = Inr ''hello''"
    by (simp add: latest_message_def)
  show ?thesis
    using completed_run_fetch_then_remove [OF h _ c m, of "''t1''"]
    by (simp add: polling_r1_eq)
qed

text \<open>
  C5. The claim: on every exit path of the query handling for a registered run, any
  exception raised after registration included, the run identifier is not a key of
  \<^verbatim>\<open>active_runs\<close> when the result or error is surfaced. The code breaks it where the
  task of the coroutine is cancelled during the sleep of line 98: the request of the
  concrete run ends with \<^verbatim>\<open>asyncio.CancelledError\<close>, nothing is deleted, and the entry of
  \<open>r1\<close> is left in \<^verbatim>\<open>active_runs\<close>.
\<close>

theorem entry_leaked_on_cancellation:
  "sleep_cancelled ''t1'' ''r1'' (shared polling_r1) =
     (Finished (Inl CancelledError), shared polling_r1) \<and>
   step example_map (Cancel 0) polling_r1 =
     (Some (Inl CancelledError), \<lparr>shared = shared polling_r1, tasks = []\<rparr>) \<and>
   active_runs (shared (snd (step example_map (Cancel 0) polling_r1))) ''r1'' =
     Some \<lparr>info_thread_id = ''t1'', info_client = ''sk_1'', info_status = ''running''\<rparr> \<and>
   Delete ''r1'' \<notin> set (calls (shared (snd (step example_map (Cancel 0) polling_r1))))"
  by (simp add: polling_r1_eq sleep_cancelled_def)

text \<open>
  What holds: whenever a stretch of \<^verbatim>\<open>process_query\<close> for a registered run ends the
  request by a \<^verbatim>\<open>return\<close> or by an exception that line 113 catches, the run identifier
  is not a key of \<^verbatim>\<open>active_runs\<close> afterwards. This holds for a wake-up from the sleep of
  the poll loop, from any state, and for the first stretch, in which the run is
  registered.
\<close>

lemma handled_exits_remove_entry:
  "(resume thread run_id g w = (Finished out, w') \<longrightarrow> active_runs w' run_id = None) \<and>
   (assistants_map (client_id request) = Some (assistant_id, api_key) \<longrightarrow>
    start_run request assistant_id api_key g w = (Inr (thread, run_id), w1) \<longrightarrow>
    process_query assistants_map request g w = (Finished out, w') \<longrightarrow>
    active_runs w' run_id = None)"
proof -
  have a: "active_runs w' run_id = None" if "resume thread run_id g w = (Finished out, w')"
    using that by (rule resume_finished_absent)
  have b: "active_runs w' run_id = None"
    if "assistants_map (client_id request) = Some (assistant_id, api_key)"
      and "start_run request assistant_id api_key g w = (Inr (thread, run_id), w1)"
      and "process_query assistants_map request g w = (Finished out, w')"
  proof -
    have "resume thread run_id g w1 = (Finished out, w')"
      using that by (simp add: process_query_def)
    then show ?thesis by (rule resume_finished_absent)
  qed
  show ?thesis using a b by blast
qed

text \<open>
  C6. When \<^verbatim>\<open>runs.retrieve\<close> reports \<^verbatim>\<open>failed\<close> for a registered run whose status is not
  \<^verbatim>\<open>cancelled\<close>, the request ends with HTTP 500 whose detail is \<^verbatim>\<open>str\<close> of the exception
  raised at line 97, the entry is deleted, and the service is not called again: the
  only effects are that one call of \<^verbatim>\<open>runs.retrieve\<close> and the deletion.
\<close>

theorem failed_run_surfaces_500:
  assumes "active_runs w run_id = Some info" and "info_status info \<noteq> ''cancelled''"
    and "runs_retrieve g = Inr ''failed''"
  shows "resume thread run_id g w =
     (Finished (Inl (HTTPException 500
        (StrOf (HTTPException 500 (Text ''Assistant run failed''))))),
      w\<lparr>active_runs := (active_runs w)(run_id := None),
        calls := calls w @ [RunsRetrieve thread run_id, Delete run_id]\<rparr>)"
  using assms by (rule resume_failed)

theorem failed_run_surfaces_500_witness:
  "step example_map (Wake 0 failed_run) polling_r1 =
     (Some (Inl (HTTPException 500 (StrOf (HTTPException 500 (Text ''Assistant run failed''))))),
      \<lparr>shared = \<lparr>active_runs = Map.empty,
                  calls = [MessagesCreate ''t1'' ''hi'', RunsCreate ''t1'' ''asst_1'', Store ''r1'',
                    RunsRetrieve ''t1'' ''r1'', RunsRetrieve ''t1'' ''r1'', Delete ''r1'']\<rparr>,
       tasks = []\<rparr>)"
proof -
  have h: "active_runs (shared polling_r1) ''r1'' =
      Some \<lparr>info_thread_id = ''t1'', info_client = ''sk_1'', info_status = ''running''\<rparr>"
    by (simp add: polling_r1_eq)
  have f: "runs_retrieve failed_run = Inr ''failed''"
    by (simp add: failed_run_def)
  show ?thesis
    using failed_run_surfaces_500 [OF h _ f, of "''t1''"]
    by (simp add: polling_r1_eq)
qed

text \<open>
  C7. A stop request for a run identifier that is not a key of \<^verbatim>\<open>active_runs\<close> (never
  registered, or already removed) is answered with HTTP 404 and leaves the dictionary,
  and everything else, unchanged.
\<close>

theorem stop_unknown_run:
  assumes "active_runs w run_id = None"
  shows "stop_generation run_id w =
     (Inl (HTTPException 404 (Text ''Run not found or already completed'')), w)"
  using assms by (simp add: stop_generation_def)

theorem stop_unknown_run_witness:
  "active_runs (shared initial) ''r1'' = None \<and>
   stop_generation ''r1'' (shared initial) =
     (Inl (HTTPException 404 (Text ''Run not found or already completed'')), shared initial)"
proof -
  have h: "active_runs (shared initial) ''r1'' = None" by (simp add: initial_def)
  show ?thesis using h stop_unknown_run [OF h] by simp
qed

text \<open>
  C8. When the status of a registered run is \<^verbatim>\<open>cancelled\<close> and \<^verbatim>\<open>runs.retrieve\<close> returns,
  whatever status it reports (\<^verbatim>\<open>completed\<close> and \<^verbatim>\<open>failed\<close> included), the stretch never
  ends with an answer, nor with the error of a failed run: the status reported is not
  looked at, the effects are the calls of \<^verbatim>\<open>runs.retrieve\<close> and \<^verbatim>\<open>runs.cancel\<close> and the
  deletion of the entry, and, the call of \<^verbatim>\<open>runs.cancel\<close> having returned, the response
  is \<^verbatim>\<open>{"status": "cancelled", "thread_id": thread}\<close>.
\<close>

theorem cancel_takes_precedence:
  assumes "active_runs w run_id = Some info" and "info_status info = ''cancelled''"
    and "runs_retrieve g = Inr st"
  shows "(\<forall>text t r. fst (resume thread run_id g w) \<noteq> Finished (Inr (Answer text t r))) \<and>
         fst (resume thread run_id g w) \<noteq>
           Finished (Inl (HTTPException 500
             (StrOf (HTTPException 500 (Text ''Assistant run failed''))))) \<and>
         snd (resume thread run_id g w) =
           w\<lparr>active_runs := (active_runs w)(run_id := None),
             calls := calls w @ [RunsRetrieve thread run_id, RunsCancel thread run_id,
                                 Delete run_id]\<rparr> \<and>
         (runs_cancel g = Inr () \<longrightarrow>
            fst (resume thread run_id g w) = Finished (Inr (Cancelled thread)))"
  using resume_cancelled [OF assms, of thread]
  by (cases "runs_cancel g") simp_all

theorem cancel_takes_precedence_witness:
  "step example_map (Wake 0 completed_hello) (snd (step example_map (Stop ''r1'') polling_r1)) =
     (Some (Inr (Cancelled ''t1'')),
      \<lparr>shared = \<lparr>active_runs = Map.empty,
                  calls = [MessagesCreate ''t1'' ''hi'', RunsCreate ''t1'' ''asst_1'', Store ''r1'',
                    RunsRetrieve ''t1'' ''r1'', RunsRetrieve ''t1'' ''r1'',
                    RunsCancel ''t1'' ''r1'', Delete ''r1'']\<rparr>,
       tasks = []\<rparr>) \<and>
   step example_map (Wake 0 failed_run) (snd (step example_map (Stop ''r1'') polling_r1)) =
     (Some (Inr (Cancelled ''t1'')),
      \<lparr>shared = \<lparr>active_runs = Map.empty,
                  calls = [MessagesCreate ''t1'' ''hi'', RunsCreate ''t1'' ''asst_1'', Store ''r1'',
                    RunsRetrieve ''t1'' ''r1'', RunsRetrieve ''t1'' ''r1'',
                    RunsCancel ''t1'' ''r1'', Delete ''r1'']\<rparr>,
       tasks = []\<rparr>)"
proof -
  let ?w = "shared (snd (step example_map (Stop ''r1'') polling_r1))"
  have h: "active_runs ?w ''r1'' =
      Some \<lparr>info_thread_id = ''t1'', info_client = ''sk_1'', info_status = ''cancelled''\<rparr>"
    by (simp add: polling_r1_eq stop_generation_def)
  have c: "runs_retrieve completed_hello = Inr ''completed''" "runs_cancel completed_hello = Inr ()"
    by (simp_all add: completed_hello_def in_progress_def)
  have f: "runs_retrieve failed_run = Inr ''failed''" "runs_cancel failed_run = Inr ()"
    by (simp_all add: failed_run_def in_progress_def)
  have t: "tasks (snd (step example_map (Stop ''r1'') polling_r1)) = [(''t1'', ''r1'')]"
    "calls ?w = [MessagesCreate ''t1'' ''hi'', RunsCreate ''t1'' ''asst_1'', Store ''r1'',
                    RunsRetrieve ''t1'' ''r1'']"
    by (simp_all add: polling_r1_eq stop_generation_def)
  have rc: "resume ''t1'' ''r1'' completed_hello ?w =
     (Finished (Inr (Cancelled ''t1'')),
      ?w\<lparr>active_runs := (active_runs ?w)(''r1'' := None),
         calls := calls ?w @ [RunsRetrieve ''t1'' ''r1'', RunsCancel ''t1'' ''r1'', Delete ''r1'']\<rparr>)"
    using cancel_takes_precedence [OF h _ c(1), of "''t1''"] c(2)
    by (simp add: prod_eq_iff)
  have rf: "resume ''t1'' ''r1'' failed_run ?w =
     (Finished (Inr (Cancelled ''t1'')),
      ?w\<lparr>active_runs := (active_runs ?w)(''r1'' := None),
         calls := calls ?w @ [RunsRetrieve ''t1'' ''r1'', RunsCancel ''t1'' ''r1'', Delete ''r1'']\<rparr>)"
    using cancel_takes_precedence [OF h _ f(1), of "''t1''"] f(2)
    by (simp add: prod_eq_iff)
  have reg: "(active_runs ?w)(''r1'' := None) = Map.empty"
    by (simp add: polling_r1_eq stop_generation_def)
  show ?thesis
    using rc rf t reg by simp
qed

text \<open>
  C9. In every reachable state of the server, every coroutine asleep in the poll loop
  finds the entry of its run (with its thread) in \<^verbatim>\<open>active_runs\<close>, so that the read at
  line 86 after its wake-up raises no \<^verbatim>\<open>KeyError\<close>; no step of the server, of any kind,
  ends with the error that a \<^verbatim>\<open>KeyError\<close> inside \<^verbatim>\<open>process_query\<close> would be surfaced as;
  and a stop request leaves the key set of \<^verbatim>\<open>active_runs\<close> as it is.
\<close>

theorem own_entry_read_never_fails:
  assumes "reachable am s"
  shows "(\<forall>i t r. i < length (tasks s) \<longrightarrow> tasks s ! i = (t, r) \<longrightarrow>
            (\<exists>info. active_runs (shared s) r = Some info \<and> info_thread_id info = t) \<and>
            (\<forall>g k. fst (poll_iteration t r g (shared s)) \<noteq> Inl (KeyError k))) \<and>
         (\<forall>a k. fst (step am a s) \<noteq> Some (Inl (HTTPException 500 (StrOf (KeyError k))))) \<and>
         (\<forall>r x. (active_runs (snd (stop_generation r (shared s))) x \<noteq> None) =
                 (active_runs (shared s) x \<noteq> None))"
proof -
  have a: "(\<exists>info. active_runs (shared s) r = Some info \<and> info_thread_id info = t) \<and>
            (\<forall>g k. fst (poll_iteration t r g (shared s)) \<noteq> Inl (KeyError k))"
    if i: "i < length (tasks s)" "tasks s ! i = (t, r)" for i t r
  proof -
    obtain info where info: "active_runs (shared s) r = Some info" "info_thread_id info = t"
      using task_entry [OF assms i] by blast
    then have "active_runs (shared s) r \<noteq> None" by simp
    then show ?thesis
      using info poll_iteration_no_key_error by blast
  qed
  show ?thesis
    using a step_no_key_error [OF assms] stop_generation_world by blast
qed

theorem own_entry_read_never_fails_witness:
  "active_runs (shared polling_r1) ''r1'' =
     Some \<lparr>info_thread_id = ''t1'', info_client = ''sk_1'', info_status = ''running''\<rparr> \<and>
   fst (poll_iteration ''t1'' ''r1'' completed_hello (shared polling_r1)) \<noteq> Inl (KeyError ''r1'') \<and>
   fst (step example_map (Wake 0 completed_hello) polling_r1) \<noteq>
     Some (Inl (HTTPException 500 (StrOf (KeyError ''r1'')))) \<and>
   active_runs (snd (stop_generation ''r1'' (shared polling_r1))) ''r1'' \<noteq> None"
proof -
  have i: "0 < length (tasks polling_r1)" "tasks polling_r1 ! 0 = (''t1'', ''r1'')"
    by (simp_all add: polling_r1_eq)
  have h: "active_runs (shared polling_r1) ''r1'' =
     Some \<lparr>info_thread_id = ''t1'', info_client = ''sk_1'', info_status = ''running''\<rparr>"
    by (simp add: polling_r1_eq)
  note t = own_entry_read_never_fails [OF reachable_polling_r1]
  have p1: "fst (poll_iteration ''t1'' ''r1'' completed_hello (shared polling_r1)) \<noteq>
      Inl (KeyError ''r1'')"
    using t i by blast
  have p2: "fst (step example_map (Wake 0 completed_hello) polling_r1) \<noteq>
     Some (Inl (HTTPException 500 (StrOf (KeyError ''r1''))))"
    using t by blast
  have p3: "active_runs (snd (stop_generation ''r1'' (shared polling_r1))) ''r1'' \<noteq> None"
    using t h by simp
  show ?thesis
    using h p1 p2 p3 by blast
qed



end
